theory Spec2Isabelle
  imports
    Main
    "HOL-Library.Char_ord"
    "HOL-Library.List_Lexorder"
    "HOL-Library.FSet"
    "HOL-Library.Finite_Map"
begin

section \<open>The in-memory key-value store of \<^verbatim>\<open>db/mem_db.go\<close>\<close>

subsection \<open>Byte slices, strings and errors\<close>

text \<open>
  A Go \<^verbatim>\<open>string\<close> is a sequence of bytes: a \<^typ>\<open>string\<close>, whose characters are bytes.
  With \<open>Char_ord\<close> and \<open>List_Lexorder\<close> the order on \<^typ>\<open>string\<close> is the unsigned
  byte-lexicographic one (a proper prefix sorts first), which is the order of Go's
  \<^verbatim>\<open><\<close> on strings, of \<^verbatim>\<open>sort.Strings\<close> and of \<^verbatim>\<open>bytes.Compare\<close>.

  A Go \<^verbatim>\<open>[]byte\<close> is either \<^verbatim>\<open>nil\<close> or a slice with contents: \<open>None\<close> is \<^verbatim>\<open>nil\<close>,
  \<open>Some []\<close> the zero-length non-nil slice.
\<close>

type_synonym bytes = "string option"

text \<open>The conversions \<^verbatim>\<open>string(bz)\<close> (of \<^verbatim>\<open>nil\<close> it is the empty string) and \<^verbatim>\<open>[]byte(s)\<close>
  (never \<^verbatim>\<open>nil\<close>).\<close>

definition string_of :: "bytes \<Rightarrow> string" where
  "string_of bz = (case bz of None \<Rightarrow> [] | Some s \<Rightarrow> s)"

definition bytes_of :: "string \<Rightarrow> bytes" where
  "bytes_of s = Some s"

text \<open>
  The two ways a call can panic: \<^verbatim>\<open>panic("memDBIterator is invalid")\<close> of
  \<^verbatim>\<open>assertIsValid\<close>, and the runtime's panic on a method call through a nil interface.
\<close>

datatype error = InvalidIterator | NilDereference

text \<open>
  Modelled from the spec: \<^verbatim>\<open>nonNilBytes\<close> is called by the store but is not defined in
  \<^verbatim>\<open>mem_db.go\<close>. The spec: a key or value that is absent/nil is normalized to a
  canonical zero-length representation before storage or lookup.
\<close>

definition nonNilBytes :: "bytes \<Rightarrow> bytes" where
  "nonNilBytes bz = (case bz of None \<Rightarrow> Some [] | Some s \<Rightarrow> Some s)"

text \<open>
  Modelled from the spec: \<^verbatim>\<open>IsKeyInDomain\<close> is called by \<^verbatim>\<open>getSortedKeys\<close> but is not
  defined in \<^verbatim>\<open>mem_db.go\<close>. The spec: the key is in the half-open range from \<open>start\<close>
  (included) to \<open>end\<close> (excluded) under byte-lexicographic comparison; a nil \<open>start\<close> means
  unbounded below, a nil \<open>end\<close> unbounded above. Every call in the source passes
  \<^verbatim>\<open>false\<close> as the fourth argument \<^verbatim>\<open>isReverse\<close>, and this is the predicate for that
  case.
\<close>

definition IsKeyInDomain :: "bytes \<Rightarrow> bytes \<Rightarrow> bytes \<Rightarrow> bool" where
  "IsKeyInDomain key start end' =
     ((case start of None \<Rightarrow> True | Some s \<Rightarrow> s \<le> string_of key) \<and>
      (case end' of None \<Rightarrow> True | Some e \<Rightarrow> string_of key < e))"

subsection \<open>The store\<close>

text \<open>
  \<^verbatim>\<open>MemDB\<close> holds a mutex and the map \<^verbatim>\<open>db map[string][]byte\<close>. A Go map is finite and
  its keys are unique: a finite map. The mutex serialises the methods and is not part of
  the model: every method is one atomic step on the store.
\<close>

record MemDB =
  db :: "(string, bytes) fmap"

definition NewMemDB :: MemDB where
  "NewMemDB = \<lparr>db = fmempty\<rparr>"

text \<open>Reading a Go map at a missing key gives the zero value of the value type, here \<^verbatim>\<open>nil\<close>.\<close>

definition Get :: "MemDB \<Rightarrow> bytes \<Rightarrow> bytes" where
  "Get m key =
     (let key = nonNilBytes key
      in case fmlookup (db m) (string_of key) of None \<Rightarrow> None | Some v \<Rightarrow> v)"

definition Has :: "MemDB \<Rightarrow> bytes \<Rightarrow> bool" where
  "Has m key =
     (let key = nonNilBytes key
      in case fmlookup (db m) (string_of key) of None \<Rightarrow> False | Some v \<Rightarrow> True)"

definition SetNoLock :: "MemDB \<Rightarrow> bytes \<Rightarrow> bytes \<Rightarrow> MemDB" where
  "SetNoLock m key val =
     (let key = nonNilBytes key;
          val = nonNilBytes val
      in m\<lparr>db := fmupd (string_of key) val (db m)\<rparr>)"

definition Set :: "MemDB \<Rightarrow> bytes \<Rightarrow> bytes \<Rightarrow> MemDB" where
  "Set m key val = SetNoLock m key val"

definition SetSync :: "MemDB \<Rightarrow> bytes \<Rightarrow> bytes \<Rightarrow> MemDB" where
  "SetSync m key val = SetNoLock m key val"

definition DeleteNoLock :: "MemDB \<Rightarrow> bytes \<Rightarrow> MemDB" where
  "DeleteNoLock m key =
     (let key = nonNilBytes key
      in m\<lparr>db := fmdrop (string_of key) (db m)\<rparr>)"

definition Delete :: "MemDB \<Rightarrow> bytes \<Rightarrow> MemDB" where
  "Delete m key = DeleteNoLock m key"

definition DeleteSync :: "MemDB \<Rightarrow> bytes \<Rightarrow> MemDB" where
  "DeleteSync m key = DeleteNoLock m key"

subsection \<open>The sorted key snapshot\<close>

text \<open>
  The loop of \<^verbatim>\<open>getSortedKeys\<close> under \<^verbatim>\<open>if reverse\<close>:
  \<^verbatim>\<open>for i := 0; i < nkeys/2; i++ { keys[i] = keys[nkeys-i-1] }\<close>.
  Both indices are below \<open>nkeys\<close> whenever the body runs, so no access is out of range
  and the counters are never negative.
\<close>

function reverse_loop :: "nat \<Rightarrow> nat \<Rightarrow> string list \<Rightarrow> string list" where
  "reverse_loop nkeys i keys =
     (if i < nkeys div 2
      then reverse_loop nkeys (i + 1) (keys[i := keys ! (nkeys - i - 1)])
      else keys)"
  by pat_completeness auto
termination
  by (relation "measure (\<lambda>(nkeys, i, keys). nkeys div 2 - i)") auto

declare reverse_loop.simps [simp del]

text \<open>
  The body of \<^verbatim>\<open>getSortedKeys\<close>, given the order \<open>enum\<close> in which
  \<^verbatim>\<open>for key, _ := range db.db\<close> visits the keys of the map: the scan appends the keys that
  are in the domain, \<^verbatim>\<open>sort.Strings\<close> sorts them ascending, and the loop above runs when
  \<open>reverse\<close> is set.
\<close>

definition getSortedKeys_of :: "string list \<Rightarrow> bytes \<Rightarrow> bytes \<Rightarrow> bool \<Rightarrow> string list" where
  "getSortedKeys_of enum start end' reverse =
     (let keys = fold (\<lambda>key keys.
                    if IsKeyInDomain (bytes_of key) start end' then keys @ [key] else keys)
                  enum [];
          keys = sort keys
      in if reverse
         then (let nkeys = length keys in reverse_loop nkeys 0 keys)
         else keys)"

text \<open>
  The \<^verbatim>\<open>range\<close> loop visits every key of the map once, in an order Go leaves unspecified;
  \<open>range_keys\<close> is the enumeration in ascending order. The choice does not show: the keys
  are distinct and the kept ones are sorted before any use (lemma
  \<open>getSortedKeys_any_enumeration\<close> below).
\<close>

definition range_keys :: "MemDB \<Rightarrow> string list" where
  "range_keys m = sorted_list_of_fset (fmdom (db m))"

definition getSortedKeys :: "MemDB \<Rightarrow> bytes \<Rightarrow> bytes \<Rightarrow> bool \<Rightarrow> string list" where
  "getSortedKeys m start end' reverse = getSortedKeys_of (range_keys m) start end' reverse"

subsection \<open>The iterator\<close>

text \<open>
  The iterator's field \<^verbatim>\<open>db\<close> (here \<open>itr_db\<close>, the store's map being \<open>db\<close> already) is a
  reference to the store it was made from, not a copy: stores live in a heap, a reference
  is an address, and \<open>None\<close> is the nil reference.
  The field \<^verbatim>\<open>keys\<close> is a slice of the iterator's own, which only \<^verbatim>\<open>len\<close> and indexing
  read: the nil slice that \<^verbatim>\<open>Close\<close> assigns is the empty list. The cursor \<^verbatim>\<open>cur\<close> is
  a Go \<^verbatim>\<open>int\<close>; it is only incremented while below \<^verbatim>\<open>len(keys)\<close>, so it never wraps.
\<close>

type_synonym addr = nat

type_synonym heap = "addr \<Rightarrow> MemDB"

record memDBIterator =
  itr_db :: "addr option"
  cur :: int
  keys :: "string list"
  start :: bytes
  end' :: bytes

definition newMemDBIterator ::
  "addr option \<Rightarrow> string list \<Rightarrow> bytes \<Rightarrow> bytes \<Rightarrow> memDBIterator" where
  "newMemDBIterator d ks s e = \<lparr>itr_db = d, cur = 0, keys = ks, start = s, end' = e\<rparr>"

definition Iterator :: "heap \<Rightarrow> addr \<Rightarrow> bytes \<Rightarrow> bytes \<Rightarrow> memDBIterator" where
  "Iterator h p s e =
     (let ks = getSortedKeys (h p) s e False
      in newMemDBIterator (Some p) ks s e)"

definition ReverseIterator :: "heap \<Rightarrow> addr \<Rightarrow> bytes \<Rightarrow> bytes \<Rightarrow> memDBIterator" where
  "ReverseIterator h p s e =
     (let ks = getSortedKeys (h p) e s True
      in newMemDBIterator (Some p) ks s e)"

definition Domain :: "memDBIterator \<Rightarrow> bytes \<times> bytes" where
  "Domain itr = (start itr, end' itr)"

definition Valid :: "memDBIterator \<Rightarrow> bool" where
  "Valid itr = (0 \<le> cur itr \<and> cur itr < int (length (keys itr)))"

definition assertIsValid :: "memDBIterator \<Rightarrow> error + unit" where
  "assertIsValid itr = (if \<not> Valid itr then Inl InvalidIterator else Inr ())"

definition Next :: "memDBIterator \<Rightarrow> error + memDBIterator" where
  "Next itr =
     (case assertIsValid itr of
        Inl e \<Rightarrow> Inl e
      | Inr _ \<Rightarrow> Inr (itr\<lparr>cur := cur itr + 1\<rparr>))"

definition Key :: "memDBIterator \<Rightarrow> error + bytes" where
  "Key itr =
     (case assertIsValid itr of
        Inl e \<Rightarrow> Inl e
      | Inr _ \<Rightarrow> Inr (bytes_of (keys itr ! nat (cur itr))))"

definition Value :: "heap \<Rightarrow> memDBIterator \<Rightarrow> error + bytes" where
  "Value h itr =
     (case assertIsValid itr of
        Inl e \<Rightarrow> Inl e
      | Inr _ \<Rightarrow>
          (let key = bytes_of (keys itr ! nat (cur itr))
           in case itr_db itr of
                None \<Rightarrow> Inl NilDereference
              | Some p \<Rightarrow> Inr (Get (h p) key)))"

definition Close :: "memDBIterator \<Rightarrow> memDBIterator" where
  "Close itr = itr\<lparr>keys := [], itr_db := None\<rparr>"

subsection \<open>Callers: sequences of store operations, traversals, interleavings\<close>

text \<open>
  A sequence of writes to one store, by any of its six writing methods, to state what
  holds ``until a later \<^verbatim>\<open>Delete(k)\<close> or \<^verbatim>\<open>Set(k, v2)\<close>''.
\<close>

datatype store_op =
  OpSet bytes bytes | OpSetSync bytes bytes | OpSetNoLock bytes bytes
| OpDelete bytes | OpDeleteSync bytes | OpDeleteNoLock bytes

fun apply_op :: "MemDB \<Rightarrow> store_op \<Rightarrow> MemDB" where
  "apply_op m (OpSet key val) = Set m key val"
| "apply_op m (OpSetSync key val) = SetSync m key val"
| "apply_op m (OpSetNoLock key val) = SetNoLock m key val"
| "apply_op m (OpDelete key) = Delete m key"
| "apply_op m (OpDeleteSync key) = DeleteSync m key"
| "apply_op m (OpDeleteNoLock key) = DeleteNoLock m key"

fun apply_ops :: "MemDB \<Rightarrow> store_op list \<Rightarrow> MemDB" where
  "apply_ops m [] = m"
| "apply_ops m (x # xs) = apply_ops (apply_op m x) xs"

text \<open>The map key an operation writes, and whether the operation is a set.\<close>

fun op_key :: "store_op \<Rightarrow> string" where
  "op_key (OpSet key val) = string_of key"
| "op_key (OpSetSync key val) = string_of key"
| "op_key (OpSetNoLock key val) = string_of key"
| "op_key (OpDelete key) = string_of key"
| "op_key (OpDeleteSync key) = string_of key"
| "op_key (OpDeleteNoLock key) = string_of key"

fun is_set :: "store_op \<Rightarrow> bool" where
  "is_set (OpSet key val) = True"
| "is_set (OpSetSync key val) = True"
| "is_set (OpSetNoLock key val) = True"
| "is_set (OpDelete key) = False"
| "is_set (OpDeleteSync key) = False"
| "is_set (OpDeleteNoLock key) = False"

text \<open>
  The caller's loop \<^verbatim>\<open>for ; itr.Valid(); itr.Next() { ... itr.Key() ... }\<close>: the keys an
  iterator yields from its current position until \<^verbatim>\<open>Valid\<close> is false.
\<close>

function traverse :: "memDBIterator \<Rightarrow> error + bytes list" where
  "traverse itr =
     (if Valid itr
      then (case Key itr of
              Inl e \<Rightarrow> Inl e
            | Inr key \<Rightarrow>
                (case Next itr of
                   Inl e \<Rightarrow> Inl e
                 | Inr itr' \<Rightarrow>
                     (case traverse itr' of
                        Inl e \<Rightarrow> Inl e
                      | Inr ks \<Rightarrow> Inr (key # ks))))
      else Inr [])"
  by pat_completeness auto
termination
  by (relation "measure (\<lambda>itr. nat (int (length (keys itr)) - cur itr))")
    (auto simp: Next_def Valid_def assertIsValid_def split: if_splits)

declare traverse.simps [simp del]

text \<open>
  What can happen to an iterator and the heap after the iterator was made: writes to
  any store, among them the iterator's own, interleaved with \<^verbatim>\<open>Next\<close> and \<^verbatim>\<open>Close\<close>.
  A panic ends the run.
\<close>

datatype call = CallSet addr bytes bytes | CallDelete addr bytes | CallNext | CallClose

type_synonym world = "heap \<times> memDBIterator"

fun exec :: "call \<Rightarrow> world \<Rightarrow> error + world" where
  "exec (CallSet p key val) (h, itr) = Inr (h(p := Set (h p) key val), itr)"
| "exec (CallDelete p key) (h, itr) = Inr (h(p := Delete (h p) key), itr)"
| "exec CallNext (h, itr) = (case Next itr of Inl e \<Rightarrow> Inl e | Inr itr' \<Rightarrow> Inr (h, itr'))"
| "exec CallClose (h, itr) = Inr (h, Close itr)"

fun exec_all :: "call list \<Rightarrow> world \<Rightarrow> error + world" where
  "exec_all [] w = Inr w"
| "exec_all (c # cs) w = (case exec c w of Inl e \<Rightarrow> Inl e | Inr w' \<Rightarrow> exec_all cs w')"

text \<open>The store of the spec's example, with keys a, b, c, d, at address 0 of a heap.\<close>

definition store_abcd :: MemDB where
  "store_abcd =
     Set (Set (Set (Set NewMemDB (Some ''a'') (Some ''1'')) (Some ''b'') (Some ''2''))
       (Some ''c'') (Some ''3'')) (Some ''d'') (Some ''4'')"

definition heap_abcd :: heap where
  "heap_abcd = (\<lambda>p. NewMemDB)(0 := store_abcd)"

text \<open>A store with the two keys a and b.\<close>

definition store_ab :: MemDB where
  "store_ab = Set (Set NewMemDB (Some ''a'') (Some ''1'')) (Some ''b'') (Some ''2'')"

section \<open>Properties of the store\<close>

lemma string_of_nonNilBytes: "string_of (nonNilBytes bz) = string_of bz"
  by (cases bz) (simp_all add: string_of_def nonNilBytes_def)

lemma Get_lookup:
  "Get m key = (case fmlookup (db m) (string_of key) of None \<Rightarrow> None | Some v \<Rightarrow> v)"
  by (simp add: Get_def string_of_nonNilBytes)

lemma Has_lookup: "Has m key = (fmlookup (db m) (string_of key) \<noteq> None)"
  by (simp add: Has_def string_of_nonNilBytes split: option.split)

lemma db_SetNoLock: "db (SetNoLock m key val) = fmupd (string_of key) (nonNilBytes val) (db m)"
  by (simp add: SetNoLock_def string_of_nonNilBytes)

lemma db_DeleteNoLock: "db (DeleteNoLock m key) = fmdrop (string_of key) (db m)"
  by (simp add: DeleteNoLock_def string_of_nonNilBytes)

lemmas db_writes =
  Set_def SetSync_def Delete_def DeleteSync_def db_SetNoLock db_DeleteNoLock

text \<open>An operation on another key leaves the entry of a key as it is.\<close>

lemma lookup_apply_op_other:
  "op_key x \<noteq> s \<Longrightarrow> fmlookup (db (apply_op m x)) s = fmlookup (db m) s"
  by (cases x) (simp_all add: db_writes)

lemma lookup_apply_ops_other:
  "\<forall>x \<in> set ops. op_key x \<noteq> s \<Longrightarrow> fmlookup (db (apply_ops m ops)) s = fmlookup (db m) s"
  by (induction ops arbitrary: m) (simp_all add: lookup_apply_op_other)

text \<open>Only a set of the key can make an absent key present.\<close>

lemma lookup_apply_op_unset:
  "is_set x \<longrightarrow> op_key x \<noteq> s \<Longrightarrow> fmlookup (db m) s = None \<Longrightarrow>
   fmlookup (db (apply_op m x)) s = None"
  by (cases x) (simp_all add: db_writes)

lemma lookup_apply_ops_unset:
  "\<forall>x \<in> set ops. is_set x \<longrightarrow> op_key x \<noteq> s \<Longrightarrow> fmlookup (db m) s = None \<Longrightarrow>
   fmlookup (db (apply_ops m ops)) s = None"
  by (induction ops arbitrary: m) (simp_all add: lookup_apply_op_unset)

text \<open>
  Claim C4, as the code has it. After \<^verbatim>\<open>Set(k, v)\<close>, and after any further operations
  none of which writes the key \<open>k\<close>, \<^verbatim>\<open>Has(k)\<close> is true and \<^verbatim>\<open>Get(k)\<close> returns the value
  that was stored, which is \<open>v\<close> normalized: \<open>v\<close> itself when \<open>v\<close> is not nil, the
  zero-length slice when \<open>v\<close> is nil. In both cases it has the bytes of \<open>v\<close>.
\<close>

theorem Set_then_Get_Has:
  assumes "\<forall>x \<in> set ops. op_key x \<noteq> string_of key"
  shows "Get (apply_ops (Set m key val) ops) key = nonNilBytes val \<and>
         string_of (Get (apply_ops (Set m key val) ops) key) = string_of val \<and>
         Has (apply_ops (Set m key val) ops) key"
  using lookup_apply_ops_other [OF assms, of "Set m key val"]
  by (simp add: Get_lookup Has_lookup db_writes string_of_nonNilBytes)

theorem Set_then_Get_Has_witness:
  "op_key (OpSet (Some ''b'') (Some ''2'')) \<noteq> string_of (Some ''a'') \<and>
   op_key (OpDelete (Some ''c'')) \<noteq> string_of (Some ''a'') \<and>
   Get (apply_ops (Set NewMemDB (Some ''a'') (Some ''1''))
          [OpSet (Some ''b'') (Some ''2''), OpDelete (Some ''c'')]) (Some ''a'') = Some ''1'' \<and>
   Has (apply_ops (Set NewMemDB (Some ''a'') (Some ''1''))
          [OpSet (Some ''b'') (Some ''2''), OpDelete (Some ''c'')]) (Some ''a'')"
  using Set_then_Get_Has [of "[OpSet (Some ''b'') (Some ''2''), OpDelete (Some ''c'')]"
      "Some ''a''" NewMemDB "Some ''1''"]
  by (simp add: string_of_def nonNilBytes_def)

text \<open>
  Claim C4 as stated fails for the nil value: after \<^verbatim>\<open>Set(k, nil)\<close>, \<^verbatim>\<open>Get(k)\<close> returns the
  zero-length slice, which is not nil (nil is what \<^verbatim>\<open>Get\<close> returns for an absent key).
\<close>

theorem Set_nil_then_Get_counterexample:
  "Get (Set NewMemDB (Some ''k'') None) (Some ''k'') = Some [] \<and>
   Get (Set NewMemDB (Some ''k'') None) (Some ''k'') \<noteq> None"
  by (simp add: Get_def Set_def SetNoLock_def NewMemDB_def nonNilBytes_def string_of_def)

text \<open>
  Claim C8. A key that was never set in a new store, or that was deleted, stays absent
  as long as no later operation sets it: \<^verbatim>\<open>Has\<close> is false and \<^verbatim>\<open>Get\<close> returns nil. A key
  stored with an empty value reads back as the zero-length slice, which differs from
  what an absent key returns.
\<close>

theorem absent_key:
  assumes "\<forall>x \<in> set ops. is_set x \<longrightarrow> op_key x \<noteq> string_of key"
  shows "\<not> Has (apply_ops NewMemDB ops) key \<and>
         Get (apply_ops NewMemDB ops) key = None \<and>
         \<not> Has (apply_ops (Delete m key) ops) key \<and>
         Get (apply_ops (Delete m key) ops) key = None \<and>
         Get (Set m' key' (Some [])) key' = Some [] \<and>
         Get (Set m' key' (Some [])) key' \<noteq> Get (apply_ops NewMemDB ops) key"
proof -
  have new: "fmlookup (db (apply_ops NewMemDB ops)) (string_of key) = None"
    using assms by (rule lookup_apply_ops_unset) (simp add: NewMemDB_def)
  have del: "fmlookup (db (apply_ops (Delete m key) ops)) (string_of key) = None"
    using assms by (rule lookup_apply_ops_unset) (simp add: db_writes)
  have emp: "Get (Set m' key' (Some [])) key' = Some []"
    by (simp add: Get_lookup db_writes nonNilBytes_def)
  from new del emp show ?thesis
    by (simp add: Get_lookup Has_lookup)
qed

theorem absent_key_witness:
  "op_key (OpSet (Some ''b'') (Some ''2'')) \<noteq> string_of (Some ''a'') \<and>
   \<not> is_set (OpDelete (Some ''a'')) \<and>
   \<not> Has (apply_ops NewMemDB [OpSet (Some ''b'') (Some ''2''), OpDelete (Some ''a'')])
       (Some ''a'') \<and>
   Get (apply_ops NewMemDB [OpSet (Some ''b'') (Some ''2''), OpDelete (Some ''a'')])
     (Some ''a'') = None \<and>
   Get (apply_ops (Delete (Set NewMemDB (Some ''a'') (Some ''1'')) (Some ''a''))
          [OpSet (Some ''b'') (Some ''2''), OpDelete (Some ''a'')]) (Some ''a'') = None \<and>
   Get (Set NewMemDB (Some ''a'') (Some [])) (Some ''a'') = Some []"
  using absent_key [of "[OpSet (Some ''b'') (Some ''2''), OpDelete (Some ''a'')]" "Some ''a''"
      "Set NewMemDB (Some ''a'') (Some ''1'')" NewMemDB "Some ''a''"]
  by (simp add: string_of_def)

text \<open>
  Claim C9. The nil key and the zero-length key are the same key for \<^verbatim>\<open>Get\<close>,
  \<^verbatim>\<open>Has\<close>, \<^verbatim>\<open>Set\<close> and \<^verbatim>\<open>Delete\<close> (and the synchronous variants), whatever the store and the
  value; and \<^verbatim>\<open>Set\<close> with a nil value stores the zero-length value.
\<close>

theorem nil_key_is_empty_key:
  "Get m None = Get m (Some []) \<and>
   Has m None = Has m (Some []) \<and>
   Set m None v = Set m (Some []) v \<and>
   SetSync m None v = SetSync m (Some []) v \<and>
   Delete m None = Delete m (Some []) \<and>
   DeleteSync m None = DeleteSync m (Some []) \<and>
   Get (Set m None v) (Some []) = Get (Set m (Some []) v) (Some []) \<and>
   Set m key None = Set m key (Some []) \<and>
   fmlookup (db (Set m key None)) (string_of key) = Some (Some [])"
proof -
  have k: "string_of None = string_of (Some [])"
    by (simp add: string_of_def)
  have v: "nonNilBytes None = nonNilBytes (Some [])" "nonNilBytes (Some []) = Some []"
    by (simp_all add: nonNilBytes_def)
  have s: "SetNoLock m None v = SetNoLock m (Some []) v"
    by (simp add: SetNoLock_def string_of_nonNilBytes k)
  have d: "DeleteNoLock m None = DeleteNoLock m (Some [])"
    by (simp add: DeleteNoLock_def string_of_nonNilBytes k)
  have n: "SetNoLock m key None = SetNoLock m key (Some [])"
    by (simp add: SetNoLock_def v)
  show ?thesis
    by (simp add: Get_lookup Has_lookup k s d n v Set_def SetSync_def Delete_def DeleteSync_def
        db_SetNoLock)
qed

section \<open>Properties of the key snapshot\<close>

text \<open>The scan keeps the keys of the enumeration that are in the domain, in its order.\<close>

lemma keep_in_domain_acc:
  "fold (\<lambda>key keys. if P key then keys @ [key] else keys) enum acc = acc @ filter P enum"
  by (induction enum arbitrary: acc) simp_all

lemma getSortedKeys_of_filter:
  "getSortedKeys_of enum s e r =
     (if r
      then reverse_loop (length (filter (\<lambda>key. IsKeyInDomain (bytes_of key) s e) enum)) 0
             (sort (filter (\<lambda>key. IsKeyInDomain (bytes_of key) s e) enum))
      else sort (filter (\<lambda>key. IsKeyInDomain (bytes_of key) s e) enum))"
  by (simp add: getSortedKeys_of_def keep_in_domain_acc Let_def)

lemma range_keys_props:
  "sorted (range_keys m)" "distinct (range_keys m)" "set (range_keys m) = fmdom' (db m)"
  by (simp_all add: range_keys_def sorted_list_of_fset.rep_eq fmdom'_alt_def)

text \<open>
  Without reversal the snapshot is the ascending list of the store's keys that are in the
  domain.
\<close>

lemma getSortedKeys_forward:
  "getSortedKeys m s e False =
     sorted_list_of_set {k \<in> fmdom' (db m). IsKeyInDomain (bytes_of k) s e}"
proof -
  let ?P = "\<lambda>key. IsKeyInDomain (bytes_of key) s e"
  have fin: "finite {k \<in> fmdom' (db m). ?P k}"
    by simp
  have srt: "sorted (filter ?P (range_keys m))"
    using range_keys_props(1) [of m] sorted_filter [of "\<lambda>x. x" "range_keys m" ?P] by simp
  have "getSortedKeys m s e False = filter ?P (range_keys m)"
    using srt by (simp add: getSortedKeys_def getSortedKeys_of_filter sorted_sort_id)
  moreover have "filter ?P (range_keys m) = sorted_list_of_set {k \<in> fmdom' (db m). ?P k}"
  proof (rule sorted_distinct_set_unique)
    show "sorted (filter ?P (range_keys m))" by (rule srt)
    show "distinct (filter ?P (range_keys m))" by (simp add: range_keys_props)
    show "sorted (sorted_list_of_set {k \<in> fmdom' (db m). ?P k})" by simp
    show "distinct (sorted_list_of_set {k \<in> fmdom' (db m). ?P k})" by simp
    show "set (filter ?P (range_keys m)) = set (sorted_list_of_set {k \<in> fmdom' (db m). ?P k})"
      using fin by (auto simp: range_keys_props)
  qed
  ultimately show ?thesis by simp
qed

text \<open>
  Whatever order the \<^verbatim>\<open>range\<close> loop visits the keys in, the snapshot is the same.
\<close>

lemma getSortedKeys_any_enumeration:
  assumes "distinct enum" and "set enum = fmdom' (db m)"
  shows "getSortedKeys_of enum s e r = getSortedKeys m s e r"
proof -
  let ?P = "\<lambda>key. IsKeyInDomain (bytes_of key) s e"
  have "sort (filter ?P enum) = sort (filter ?P (range_keys m))"
  proof (rule sorted_distinct_set_unique)
    show "set (sort (filter ?P enum)) = set (sort (filter ?P (range_keys m)))"
      using assms by (simp add: range_keys_props)
  qed (simp_all add: assms range_keys_props)
  then have eq: "sort (filter ?P enum) = sort (filter ?P (range_keys m))" .
  have len: "length (filter ?P enum) = length (filter ?P (range_keys m))"
    using arg_cong [OF eq, of length] by simp
  show ?thesis
    unfolding getSortedKeys_def getSortedKeys_of_filter eq len by (rule refl)
qed

text \<open>
  What the loop under \<^verbatim>\<open>if reverse\<close> computes: positions below \<open>nkeys div 2\<close> receive the
  mirrored element, the other positions keep theirs (the loop assigns \<^verbatim>\<open>keys[i]\<close> and never
  \<^verbatim>\<open>keys[nkeys-i-1]\<close>).
\<close>

lemma reverse_loop_nth:
  "length ks = n \<Longrightarrow>
   length (reverse_loop n i ks) = n \<and>
   (\<forall>j < n. reverse_loop n i ks ! j =
      (if i \<le> j \<and> j < n div 2 then ks ! (n - j - 1) else ks ! j))"
proof (induction n i ks rule: reverse_loop.induct)
  case (1 nkeys i keys)
  show ?case
  proof (cases "i < nkeys div 2")
    case False
    then have "reverse_loop nkeys i keys = keys"
      by (subst reverse_loop.simps) simp
    then show ?thesis
      using False "1.prems" by auto
  next
    case True
    let ?keys' = "keys[i := keys ! (nkeys - i - 1)]"
    have len: "length ?keys' = nkeys"
      using "1.prems" by simp
    note IH = "1.IH" [OF True len]
    have step: "reverse_loop nkeys i keys = reverse_loop nkeys (i + 1) ?keys'"
      using True by (subst reverse_loop.simps) simp
    show ?thesis
    proof (intro conjI allI impI)
      show "length (reverse_loop nkeys i keys) = nkeys"
        using IH step by simp
    next
      fix j assume j: "j < nkeys"
      have r: "reverse_loop nkeys i keys ! j =
          (if i + 1 \<le> j \<and> j < nkeys div 2 then ?keys' ! (nkeys - j - 1) else ?keys' ! j)"
        using IH j step by simp
      show "reverse_loop nkeys i keys ! j =
          (if i \<le> j \<and> j < nkeys div 2 then keys ! (nkeys - j - 1) else keys ! j)"
      proof (cases "j = i")
        case True
        then show ?thesis
          using r \<open>i < nkeys div 2\<close> "1.prems" by simp
      next
        case False
        have "nkeys - j - 1 \<noteq> i" if "j < nkeys div 2"
          using that \<open>i < nkeys div 2\<close> by linarith
        then show ?thesis
          using r False by auto
      qed
    qed
  qed
qed

text \<open>So the loop does not reverse any list of two or more distinct keys.\<close>

lemma reverse_loop_not_rev:
  assumes "distinct ks" and "2 \<le> length ks"
  shows "reverse_loop (length ks) 0 ks \<noteq> rev ks"
proof
  assume eq: "reverse_loop (length ks) 0 ks = rev ks"
  let ?n = "length ks"
  have "reverse_loop ?n 0 ks ! (?n - 1) = ks ! (?n - 1)"
    using reverse_loop_nth [of ks ?n 0] assms(2) by simp
  moreover have "rev ks ! (?n - 1) = ks ! 0"
    using assms(2) by (simp add: rev_nth)
  ultimately have "ks ! (?n - 1) = ks ! 0"
    using eq by simp
  moreover have "?n - 1 < ?n" "0 < ?n" "?n - 1 \<noteq> 0"
    using assms(2) by auto
  ultimately show False
    using assms(1) nth_eq_iff_index_eq [of ks "?n - 1" 0] by simp
qed

text \<open>The snapshots of a store whose keys are a, b, c, d.\<close>

lemma sorted_abcd:
  "sorted_list_of_fset {|''a'', ''b'', ''c'', ''d''|} = [''a'', ''b'', ''c'', ''d'']"
  by code_simp

lemma range_keys_abcd:
  "fmdom (db m) = {|''a'', ''b'', ''c'', ''d''|} \<Longrightarrow> range_keys m = [''a'', ''b'', ''c'', ''d'']"
  by (simp add: range_keys_def sorted_abcd)

lemma fmdom_store_abcd: "fmdom (db store_abcd) = {|''a'', ''b'', ''c'', ''d''|}"
  by (auto simp add: store_abcd_def db_writes NewMemDB_def string_of_def)

lemma getSortedKeys_abcd_forward:
  "fmdom (db m) = {|''a'', ''b'', ''c'', ''d''|} \<Longrightarrow>
   getSortedKeys m (Some ''b'') (Some ''d'') False = [''b'', ''c'']"
  by (simp add: getSortedKeys_def range_keys_abcd getSortedKeys_of_filter IsKeyInDomain_def
      bytes_of_def string_of_def)

lemma getSortedKeys_abcd_swapped:
  "fmdom (db m) = {|''a'', ''b'', ''c'', ''d''|} \<Longrightarrow>
   getSortedKeys m (Some ''d'') (Some ''b'') True = []"
  by (simp add: getSortedKeys_def range_keys_abcd getSortedKeys_of_filter IsKeyInDomain_def
      bytes_of_def string_of_def reverse_loop.simps)

section \<open>Properties of the iterator\<close>

text \<open>A traversal yields the snapshot from the cursor on, and never panics.\<close>

lemma traverse_from_cursor:
  "0 \<le> cur itr \<Longrightarrow> traverse itr = Inr (map bytes_of (drop (nat (cur itr)) (keys itr)))"
proof (induction itr rule: traverse.induct)
  case (1 itr)
  show ?case
  proof (cases "Valid itr")
    case False
    with "1.prems" show ?thesis
      by (subst traverse.simps) (simp add: Valid_def)
  next
    case True
    let ?itr' = "itr\<lparr>cur := cur itr + 1\<rparr>"
    have k: "Key itr = Inr (bytes_of (keys itr ! nat (cur itr)))"
      using True by (simp add: Key_def assertIsValid_def)
    have n: "Next itr = Inr ?itr'"
      using True by (simp add: Next_def assertIsValid_def)
    have pos: "nat (cur itr) < length (keys itr)"
      using True by (simp add: Valid_def nat_less_iff)
    have "traverse ?itr' = Inr (map bytes_of (drop (nat (cur ?itr')) (keys ?itr')))"
      using "1.IH" [OF True k n] "1.prems" by simp
    moreover have "drop (nat (cur itr)) (keys itr)
        = keys itr ! nat (cur itr) # drop (nat (cur itr + 1)) (keys itr)"
      using pos "1.prems" by (simp add: Cons_nth_drop_Suc nat_add_distrib)
    ultimately show ?thesis
      using True k n by (subst traverse.simps) simp
  qed
qed

lemma traverse_new: "traverse (newMemDBIterator d ks s e) = Inr (map bytes_of ks)"
  using traverse_from_cursor [of "newMemDBIterator d ks s e"]
  by (simp add: newMemDBIterator_def)

lemma traverse_Iterator:
  "traverse (Iterator h p s e) = Inr (map bytes_of (getSortedKeys (h p) s e False))"
  by (simp add: Iterator_def traverse_new)

lemma traverse_ReverseIterator:
  "traverse (ReverseIterator h p s e) = Inr (map bytes_of (getSortedKeys (h p) e s True))"
  by (simp add: ReverseIterator_def traverse_new)

lemma fmdom_heap_abcd: "fmdom (db (heap_abcd 0)) = {|''a'', ''b'', ''c'', ''d''|}"
  by (simp add: heap_abcd_def fmdom_store_abcd)

text \<open>
  Claim C3. The snapshot of a forward iterator is the ascending list of the keys of the
  store that are in the domain from \<open>start\<close> (included) to \<open>end\<close> (excluded), a nil bound
  being no bound, and the traversal yields exactly the snapshot. For a store whose keys are
  a, b, c, d, \<^verbatim>\<open>Iterator("b", "d")\<close> yields b, c in that order.
\<close>

theorem Iterator_yields_range_ascending:
  "keys (Iterator h p s e) =
     sorted_list_of_set {k \<in> fmdom' (db (h p)). IsKeyInDomain (bytes_of k) s e} \<and>
   traverse (Iterator h p s e) = Inr (map bytes_of (keys (Iterator h p s e))) \<and>
   (fmdom (db (h p)) = {|''a'', ''b'', ''c'', ''d''|} \<longrightarrow>
      traverse (Iterator h p (Some ''b'') (Some ''d'')) = Inr [Some ''b'', Some ''c''])"
proof (intro conjI impI)
  show "keys (Iterator h p s e) =
      sorted_list_of_set {k \<in> fmdom' (db (h p)). IsKeyInDomain (bytes_of k) s e}"
    by (simp add: Iterator_def newMemDBIterator_def getSortedKeys_forward)
  show "traverse (Iterator h p s e) = Inr (map bytes_of (keys (Iterator h p s e)))"
    by (simp add: traverse_Iterator) (simp add: Iterator_def newMemDBIterator_def)
  show "traverse (Iterator h p (Some ''b'') (Some ''d'')) = Inr [Some ''b'', Some ''c'']"
    if "fmdom (db (h p)) = {|''a'', ''b'', ''c'', ''d''|}"
    using that by (simp add: traverse_Iterator getSortedKeys_abcd_forward bytes_of_def)
qed

theorem Iterator_yields_range_ascending_witness:
  "fmdom (db (heap_abcd 0)) = {|''a'', ''b'', ''c'', ''d''|} \<and>
   keys (Iterator heap_abcd 0 (Some ''b'') (Some ''d'')) = [''b'', ''c''] \<and>
   traverse (Iterator heap_abcd 0 (Some ''b'') (Some ''d'')) = Inr [Some ''b'', Some ''c'']"
proof -
  have d: "fmdom (db (heap_abcd 0)) = {|''a'', ''b'', ''c'', ''d''|}"
    by (rule fmdom_heap_abcd)
  have t: "traverse (Iterator heap_abcd 0 (Some ''b'') (Some ''d'')) = Inr [Some ''b'', Some ''c'']"
    using Iterator_yields_range_ascending [of heap_abcd 0] d by blast
  have k: "keys (Iterator heap_abcd 0 (Some ''b'') (Some ''d'')) = [''b'', ''c'']"
    using d by (simp add: Iterator_def newMemDBIterator_def getSortedKeys_abcd_forward)
  from d t k show ?thesis by simp
qed

text \<open>
  Claim C1 as stated fails: on the store with keys a, b, c, d the traversal of
  \<^verbatim>\<open>ReverseIterator("b", "d")\<close> yields no key, not c, b.
\<close>

theorem ReverseIterator_b_d_counterexample:
  "traverse (ReverseIterator heap_abcd 0 (Some ''b'') (Some ''d'')) = Inr [] \<and>
   traverse (ReverseIterator heap_abcd 0 (Some ''b'') (Some ''d'')) \<noteq> Inr [Some ''c'', Some ''b'']"
  by (simp add: traverse_ReverseIterator getSortedKeys_abcd_swapped [OF fmdom_heap_abcd])

text \<open>
  Claim C1, as the code has it. \<^verbatim>\<open>ReverseIterator(start, end)\<close> takes its snapshot with the
  bounds exchanged: it scans the keys from \<open>end\<close> (included) to \<open>start\<close> (excluded). For a
  store whose keys are a, b, c, d, \<^verbatim>\<open>ReverseIterator("b", "d")\<close> scans from d to b, which
  holds no key: the iterator is invalid from construction and its traversal yields nothing.
\<close>

theorem ReverseIterator_b_d_empty:
  assumes "fmdom (db (h p)) = {|''a'', ''b'', ''c'', ''d''|}"
  shows "keys (ReverseIterator h p (Some ''b'') (Some ''d'')) =
           getSortedKeys (h p) (Some ''d'') (Some ''b'') True \<and>
         \<not> Valid (ReverseIterator h p (Some ''b'') (Some ''d'')) \<and>
         traverse (ReverseIterator h p (Some ''b'') (Some ''d'')) = Inr []"
  using getSortedKeys_abcd_swapped [OF assms]
  by (simp add: traverse_ReverseIterator) (simp add: ReverseIterator_def newMemDBIterator_def Valid_def)

theorem ReverseIterator_b_d_empty_witness:
  "fmdom (db (heap_abcd 0)) = {|''a'', ''b'', ''c'', ''d''|} \<and>
   \<not> Valid (ReverseIterator heap_abcd 0 (Some ''b'') (Some ''d'')) \<and>
   traverse (ReverseIterator heap_abcd 0 (Some ''b'') (Some ''d'')) = Inr []"
  using ReverseIterator_b_d_empty [of heap_abcd 0] fmdom_heap_abcd
  by simp

lemma fmdom_store_ab: "fmdom (db store_ab) = {|''a'', ''b''|}"
  by (auto simp add: store_ab_def db_writes NewMemDB_def string_of_def)

lemma sorted_ab: "sorted_list_of_fset {|''a'', ''b''|} = [''a'', ''b'']"
  by code_simp

text \<open>
  Claim C2 at the store with keys a, b and nil bounds: the ascending snapshot is a, b and
  the snapshot with \<open>reverse\<close> is b, b, which is not its reversal b, a. A traversal of
  \<^verbatim>\<open>ReverseIterator(nil, nil)\<close> on that store yields b twice and never a.
\<close>

theorem getSortedKeys_reverse_overwrites:
  "getSortedKeys store_ab None None False = [''a'', ''b''] \<and>
   getSortedKeys store_ab None None True = [''b'', ''b''] \<and>
   getSortedKeys store_ab None None True \<noteq> rev (getSortedKeys store_ab None None False) \<and>
   traverse (ReverseIterator (\<lambda>p. store_ab) 0 None None) = Inr [Some ''b'', Some ''b'']"
  by (simp add: traverse_ReverseIterator getSortedKeys_def range_keys_def fmdom_store_ab
      sorted_ab getSortedKeys_of_filter IsKeyInDomain_def reverse_loop.simps bytes_of_def)

text \<open>The same holds of every snapshot of two keys or more.\<close>

lemma getSortedKeys_reverse_never_reversed:
  assumes "2 \<le> length (getSortedKeys m s e False)"
  shows "getSortedKeys m s e True \<noteq> rev (getSortedKeys m s e False)"
proof -
  let ?ks = "getSortedKeys m s e False"
  have d: "distinct ?ks"
    by (simp add: getSortedKeys_forward)
  have "getSortedKeys m s e True = reverse_loop (length ?ks) 0 ?ks"
    by (simp add: getSortedKeys_def getSortedKeys_of_filter)
  then show ?thesis
    using reverse_loop_not_rev [OF d assms] by simp
qed

text \<open>
  Writes to the stores, \<^verbatim>\<open>Next\<close> and \<^verbatim>\<open>Close\<close> leave an iterator's snapshot and store
  reference as they are, until \<^verbatim>\<open>Close\<close> empties the snapshot.
\<close>

lemma exec_keeps_snapshot:
  "exec c (h, itr) = Inr (h', itr') \<Longrightarrow>
   keys itr' = keys itr \<and> itr_db itr' = itr_db itr \<or> keys itr' = []"
  by (cases c) (auto simp: Next_def Close_def split: sum.splits)

lemma exec_closed_stays_closed:
  "exec c (h, itr) = Inr (h', itr') \<Longrightarrow> keys itr = [] \<Longrightarrow> keys itr' = []"
  by (cases c) (auto simp: Next_def Close_def split: sum.splits)

lemma exec_all_keeps_snapshot:
  "exec_all cs (h, itr) = Inr (h', itr') \<Longrightarrow>
   keys itr' = keys itr \<and> itr_db itr' = itr_db itr \<or> keys itr' = []"
proof (induction cs arbitrary: h itr)
  case Nil
  then show ?case by simp
next
  case (Cons c cs)
  from Cons.prems obtain h1 itr1 where
    one: "exec c (h, itr) = Inr (h1, itr1)" and rest: "exec_all cs (h1, itr1) = Inr (h', itr')"
    by (auto split: sum.splits)
  from exec_keeps_snapshot [OF one] Cons.IH [OF rest] show ?case
    by auto
qed

lemma Valid_keys: "Valid itr \<Longrightarrow> keys itr \<noteq> []"
  by (auto simp: Valid_def)

lemma Key_Inr: "Key itr = Inr key \<Longrightarrow>
  Valid itr \<and> key = bytes_of (keys itr ! nat (cur itr)) \<and> keys itr ! nat (cur itr) \<in> set (keys itr)"
  by (auto simp: Key_def assertIsValid_def Valid_def nat_less_iff split: if_splits)

lemma keys_Iterator_abcd:
  "keys (Iterator heap_abcd 0 (Some ''b'') (Some ''d'')) = [''b'', ''c'']"
  by (simp add: Iterator_def newMemDBIterator_def getSortedKeys_abcd_forward fmdom_heap_abcd)

lemma Iterator_abcd:
  "Iterator heap_abcd 0 (Some ''b'') (Some ''d'') =
     \<lparr>itr_db = Some 0, cur = 0, keys = [''b'', ''c''], start = Some ''b'', end' = Some ''d''\<rparr>"
  by (simp add: Iterator_def newMemDBIterator_def getSortedKeys_abcd_forward fmdom_heap_abcd)

text \<open>
  Claim C5. A key that is not in an iterator's snapshot is never returned by \<^verbatim>\<open>Key\<close>,
  whatever happens after the iterator was made: any interleaving of writes to the stores
  (among them the insertion of that key), of \<^verbatim>\<open>Next\<close> and of \<^verbatim>\<open>Close\<close>.
\<close>

theorem snapshot_isolation:
  assumes "k \<notin> set (keys itr)"
    and "exec_all cs (h, itr) = Inr (h', itr')"
  shows "Key itr' \<noteq> Inr (bytes_of k)"
proof
  assume "Key itr' = Inr (bytes_of k)"
  from Key_Inr [OF this] have v: "Valid itr'" and "k \<in> set (keys itr')"
    by (simp_all add: bytes_of_def)
  moreover have "keys itr' = keys itr"
    using exec_all_keeps_snapshot [OF assms(2)] Valid_keys [OF v] by simp
  ultimately show False
    using assms(1) by simp
qed

theorem snapshot_isolation_witness:
  "''bb'' \<notin> set (keys (Iterator heap_abcd 0 (Some ''b'') (Some ''d''))) \<and>
   exec_all [CallSet 0 (Some ''bb'') (Some ''9''), CallNext]
     (heap_abcd, Iterator heap_abcd 0 (Some ''b'') (Some ''d'')) =
     Inr (heap_abcd(0 := Set (heap_abcd 0) (Some ''bb'') (Some ''9'')),
          (Iterator heap_abcd 0 (Some ''b'') (Some ''d''))\<lparr>cur := 1\<rparr>) \<and>
   Has ((heap_abcd(0 := Set (heap_abcd 0) (Some ''bb'') (Some ''9''))) 0) (Some ''bb'') \<and>
   IsKeyInDomain (Some ''bb'') (Some ''b'') (Some ''d'') \<and>
   Key ((Iterator heap_abcd 0 (Some ''b'') (Some ''d''))\<lparr>cur := 1\<rparr>) = Inr (Some ''c'') \<and>
   Key ((Iterator heap_abcd 0 (Some ''b'') (Some ''d''))\<lparr>cur := 1\<rparr>) \<noteq> Inr (bytes_of ''bb'')"
proof -
  let ?it = "Iterator heap_abcd 0 (Some ''b'') (Some ''d'')"
  let ?cs = "[CallSet 0 (Some ''bb'') (Some ''9''), CallNext]"
  let ?h' = "heap_abcd(0 := Set (heap_abcd 0) (Some ''bb'') (Some ''9''))"
  have a: "''bb'' \<notin> set (keys ?it)"
    by (simp add: keys_Iterator_abcd)
  have b: "exec_all ?cs (heap_abcd, ?it) = Inr (?h', ?it\<lparr>cur := 1\<rparr>)"
    by (simp add: Iterator_abcd Next_def assertIsValid_def Valid_def)
  have c: "Has (?h' 0) (Some ''bb'')"
    by (simp add: Has_lookup db_writes string_of_def)
  have d: "IsKeyInDomain (Some ''bb'') (Some ''b'') (Some ''d'')"
    by (simp add: IsKeyInDomain_def string_of_def)
  have e: "Key (?it\<lparr>cur := 1\<rparr>) = Inr (Some ''c'')"
    by (simp add: Iterator_abcd Key_def assertIsValid_def Valid_def bytes_of_def)
  from a b c d e snapshot_isolation [OF a b] show ?thesis
    by simp
qed

text \<open>
  Claim C6. Take an iterator made by \<^verbatim>\<open>Iterator\<close> or \<^verbatim>\<open>ReverseIterator\<close> on the store at
  \<open>p\<close>, any run after that, and a position where \<^verbatim>\<open>Key\<close> returns \<open>key\<close>. Then \<^verbatim>\<open>Value\<close>
  is \<^verbatim>\<open>Get(key)\<close> on the store as it is now: after a \<^verbatim>\<open>Set(key, v)\<close> it is the value that
  \<^verbatim>\<open>Set\<close> stored, after a \<^verbatim>\<open>Delete(key)\<close> it is nil, the absent indicator.
\<close>

theorem Value_reads_live_store:
  assumes "itr0 = Iterator h0 p s e \<or> itr0 = ReverseIterator h0 p s e"
    and "exec_all cs (h0, itr0) = Inr (h, itr)"
    and "Key itr = Inr key"
  shows "Value h itr = Inr (Get (h p) key) \<and>
         Value (h(p := Set (h p) key v)) itr = Inr (nonNilBytes v) \<and>
         Value (h(p := Delete (h p) key)) itr = Inr None"
proof -
  from Key_Inr [OF assms(3)] have v: "Valid itr" and key: "key = bytes_of (keys itr ! nat (cur itr))"
    by simp_all
  have "itr_db itr0 = Some p"
    using assms(1) by (auto simp: Iterator_def ReverseIterator_def newMemDBIterator_def)
  then have d: "itr_db itr = Some p"
    using exec_all_keeps_snapshot [OF assms(2)] Valid_keys [OF v] by simp
  have val: "Value h' itr = Inr (Get (h' p) key)" for h'
    using v d key by (simp add: Value_def assertIsValid_def)
  show ?thesis
    by (simp add: val Get_lookup db_writes)
qed

theorem Value_reads_live_store_witness:
  "exec_all [CallNext, CallSet 0 (Some ''c'') (Some ''new'')]
     (heap_abcd, Iterator heap_abcd 0 (Some ''b'') (Some ''d'')) =
     Inr (heap_abcd(0 := Set (heap_abcd 0) (Some ''c'') (Some ''new'')),
          (Iterator heap_abcd 0 (Some ''b'') (Some ''d''))\<lparr>cur := 1\<rparr>) \<and>
   Key ((Iterator heap_abcd 0 (Some ''b'') (Some ''d''))\<lparr>cur := 1\<rparr>) = Inr (Some ''c'') \<and>
   Get (heap_abcd 0) (Some ''c'') = Some ''3'' \<and>
   Value (heap_abcd(0 := Set (heap_abcd 0) (Some ''c'') (Some ''new'')))
     ((Iterator heap_abcd 0 (Some ''b'') (Some ''d''))\<lparr>cur := 1\<rparr>) = Inr (Some ''new'') \<and>
   Value ((heap_abcd(0 := Set (heap_abcd 0) (Some ''c'') (Some ''new'')))
            (0 := Delete ((heap_abcd(0 := Set (heap_abcd 0) (Some ''c'') (Some ''new''))) 0) (Some ''c'')))
     ((Iterator heap_abcd 0 (Some ''b'') (Some ''d''))\<lparr>cur := 1\<rparr>) = Inr None"
proof -
  let ?it = "Iterator heap_abcd 0 (Some ''b'') (Some ''d'')"
  let ?cs = "[CallNext, CallSet 0 (Some ''c'') (Some ''new'')]"
  let ?h = "heap_abcd(0 := Set (heap_abcd 0) (Some ''c'') (Some ''new''))"
  have a: "?it = Iterator heap_abcd 0 (Some ''b'') (Some ''d'') \<or>
           ?it = ReverseIterator heap_abcd 0 (Some ''b'') (Some ''d'')"
    by simp
  have b: "exec_all ?cs (heap_abcd, ?it) = Inr (?h, ?it\<lparr>cur := 1\<rparr>)"
    by (simp add: Iterator_abcd Next_def assertIsValid_def Valid_def)
  have c: "Key (?it\<lparr>cur := 1\<rparr>) = Inr (Some ''c'')"
    by (simp add: Iterator_abcd Key_def assertIsValid_def Valid_def bytes_of_def)
  have g: "Get (heap_abcd 0) (Some ''c'') = Some ''3''"
    by (simp add: heap_abcd_def store_abcd_def Get_lookup db_writes string_of_def nonNilBytes_def)
  have g': "Get (?h 0) (Some ''c'') = Some ''new''"
    by (simp add: Get_lookup db_writes string_of_def nonNilBytes_def)
  from Value_reads_live_store [OF a b c] b c g g' show ?thesis
    by simp
qed

text \<open>
  Claim C7. On an iterator that is not valid, \<^verbatim>\<open>Next\<close>, \<^verbatim>\<open>Key\<close> and \<^verbatim>\<open>Value\<close> panic with
  the invalid-iterator panic; a closed iterator is not valid, so each of them panics
  after \<^verbatim>\<open>Close\<close>.
\<close>

theorem invalid_iterator_panics:
  "(\<not> Valid itr \<longrightarrow>
      Next itr = Inl InvalidIterator \<and> Key itr = Inl InvalidIterator \<and>
      Value h itr = Inl InvalidIterator) \<and>
   \<not> Valid (Close itr) \<and>
   Next (Close itr) = Inl InvalidIterator \<and>
   Key (Close itr) = Inl InvalidIterator \<and>
   Value h (Close itr) = Inl InvalidIterator"
  by (simp add: Next_def Key_def Value_def assertIsValid_def) (simp add: Valid_def Close_def)

theorem invalid_iterator_panics_witness:
  "exec_all [CallNext, CallNext] (heap_abcd, Iterator heap_abcd 0 (Some ''b'') (Some ''d'')) =
     Inr (heap_abcd, (Iterator heap_abcd 0 (Some ''b'') (Some ''d''))\<lparr>cur := 2\<rparr>) \<and>
   \<not> Valid ((Iterator heap_abcd 0 (Some ''b'') (Some ''d''))\<lparr>cur := 2\<rparr>) \<and>
   Next ((Iterator heap_abcd 0 (Some ''b'') (Some ''d''))\<lparr>cur := 2\<rparr>) = Inl InvalidIterator \<and>
   Key ((Iterator heap_abcd 0 (Some ''b'') (Some ''d''))\<lparr>cur := 2\<rparr>) = Inl InvalidIterator \<and>
   Value heap_abcd ((Iterator heap_abcd 0 (Some ''b'') (Some ''d''))\<lparr>cur := 2\<rparr>) =
     Inl InvalidIterator"
proof -
  let ?it = "Iterator heap_abcd 0 (Some ''b'') (Some ''d'')"
  have a: "exec_all [CallNext, CallNext] (heap_abcd, ?it) = Inr (heap_abcd, ?it\<lparr>cur := 2\<rparr>)"
    by (simp add: Iterator_abcd Next_def assertIsValid_def Valid_def)
  have b: "\<not> Valid (?it\<lparr>cur := 2\<rparr>)"
    by (simp add: Iterator_abcd Valid_def)
  from invalid_iterator_panics [of "?it\<lparr>cur := 2\<rparr>" heap_abcd] a b show ?thesis
    by blast
qed

text \<open>
  Claim C10. After \<^verbatim>\<open>Close\<close>, \<^verbatim>\<open>Valid\<close> is false, \<^verbatim>\<open>Domain\<close> still returns the bounds the
  iterator was made with, and a second \<^verbatim>\<open>Close\<close> changes nothing. None of the three has a
  panic in the source, so they are total in the model, and a run of two \<^verbatim>\<open>Close\<close> calls
  ends without error.
\<close>

theorem Close_leaves_Valid_Domain_Close_total:
  "Valid (Close itr) = False \<and>
   Domain (Close itr) = (start itr, end' itr) \<and>
   Domain (Close itr) = Domain itr \<and>
   Close (Close itr) = Close itr \<and>
   exec_all [CallClose, CallClose] (h, itr) = Inr (h, Close itr) \<and>
   Domain (Close (Iterator h p s e)) = (s, e) \<and>
   Domain (Close (ReverseIterator h p s e)) = (s, e)"
  by (simp add: Valid_def Close_def Domain_def Iterator_def ReverseIterator_def
      newMemDBIterator_def)

end
